theory Spec2Isabelle
  imports Main "HOL-Library.Word" "HOL-Library.Multiset"
begin

section \<open>Counting semaphore (tools/semaphore/semaphore.cpp)\<close>

text \<open>
  The counter is an \<open>atomic<size_t>\<close>: an unsigned 64-bit machine integer, so
  \<open>+=\<close> and \<open>--\<close> wrap around. Every member function runs its whole body under
  \<open>m_lock\<close>, so each call is one atomic step on the counter; the mutex and the
  condition variable carry no data of their own and are not part of the state.
\<close>

type_synonym size_t = "64 word"

record semaphore =
  m_count :: size_t

definition Semaphore :: "size_t \<Rightarrow> semaphore" where
  "Semaphore init_count = \<lparr>m_count = init_count\<rparr>"

definition IsAvailable :: "semaphore \<Rightarrow> bool" where
  "IsAvailable s = (m_count s > 0)"

definition post :: "size_t \<Rightarrow> semaphore \<Rightarrow> semaphore" where
  "post n s = s\<lparr>m_count := m_count s + n\<rparr>"

text \<open>
  \<open>wait\<close> sleeps on the condition variable until \<open>IsAvailable\<close> holds and only then
  decrements. \<open>None\<close> is the call that has not completed: the caller is still asleep
  and the counter is untouched.
\<close>

definition wait :: "semaphore \<Rightarrow> semaphore option" where
  "wait s = (if IsAvailable s then Some (s\<lparr>m_count := m_count s - 1\<rparr>) else None)"

text \<open>
  \<open>wait_for\<close> with a predicate returns the value of the predicate at the moment it
  returns, still under the lock; \<open>timed_wait\<close> subtracts that boolean from the
  counter. The duration only decides how long the caller may sleep before that moment.
\<close>

definition timed_wait :: "int \<Rightarrow> semaphore \<Rightarrow> bool \<times> semaphore" where
  "timed_wait timeout s =
     (let result = IsAvailable s
      in (result, s\<lparr>m_count := m_count s - of_bool result\<rparr>))"

definition try_wait :: "semaphore \<Rightarrow> bool \<times> semaphore" where
  "try_wait s = timed_wait 0 s"

subsection \<open>Sequences of semaphore operations\<close>

datatype sem_op = Post size_t | Wait | TryWait | TimedWait int

text \<open>
  One operation of a sequence: the flag says whether it was a wait that completed
  (a \<open>wait\<close> that returned, or a \<open>try_wait\<close>/\<open>timed_wait\<close> that returned true).
\<close>

fun sem_exec :: "sem_op \<Rightarrow> semaphore \<Rightarrow> bool \<times> semaphore" where
  "sem_exec (Post n) s = (False, post n s)"
| "sem_exec Wait s = (case wait s of None \<Rightarrow> (False, s) | Some s' \<Rightarrow> (True, s'))"
| "sem_exec TryWait s = try_wait s"
| "sem_exec (TimedWait t) s = timed_wait t s"

fun posted_by :: "sem_op \<Rightarrow> nat" where
  "posted_by (Post n) = unat n"
| "posted_by _ = 0"

definition total_posted :: "sem_op list \<Rightarrow> nat" where
  "total_posted ops = sum_list (map posted_by ops)"

text \<open>The number of completed waits of a sequence, and the semaphore it leaves.\<close>

fun sem_run :: "sem_op list \<Rightarrow> semaphore \<Rightarrow> nat \<times> semaphore" where
  "sem_run [] s = (0, s)"
| "sem_run (x # xs) s =
     (case sem_exec x s of (ok, s') \<Rightarrow>
        (case sem_run xs s' of (k, s'') \<Rightarrow> (of_bool ok + k, s'')))"

section \<open>Thread pool (thread_pool/thread_pool.hpp)\<close>

datatype Status = RUNNING | PAUSED | FINISHED

text \<open>
  How a call of a member function ends when it does not return a value:
  \<^item> \<open>LengthError\<close>: \<open>std::length_error\<close> was thrown;
  \<^item> \<open>NoReturnValue\<close>: control reached the closing brace of a value-returning
    function without a \<open>return\<close> statement, so no value is produced;
  \<^item> \<open>Blocked\<close>: the caller sleeps in \<open>Semaphore::wait\<close> on a counter that is 0;
  \<^item> \<open>EmptyQueue\<close>: \<open>top()\<close>/\<open>pop()\<close> on an empty \<open>priority_queue\<close>.
  The pool state that comes with an outcome is the state at that point.
\<close>

datatype error = LengthError | NoReturnValue | Blocked | EmptyQueue

type_synonym thread_id = nat

text \<open>
  \<open>m_threads\<close> is an \<open>unordered_map<thread::id, thread>\<close>; a \<open>std::thread\<close> handle
  carries nothing but its id, so the map is the list of its keys. \<open>m_calls\<close> is a
  \<open>priority_queue<Callable>\<close>: a vector kept as a binary heap under the
  \<open>operator<\<close> of \<open>Callable\<close>. The two mutexes carry no data.
\<close>

record 'c pool =
  m_status :: Status
  m_threads :: "thread_id list"
  m_calls :: "'c list"
  m_to_remove :: "thread_id list"
  m_is_empty :: semaphore
  m_actions :: semaphore
  m_to_stop :: semaphore
  m_running_threads :: semaphore

definition GetSize :: "'c pool \<Rightarrow> size_t" where
  "GetSize p = of_nat (length (m_threads p))"

text \<open>\<open>ThreadLoop\<close> and \<open>RemoveThreads\<close> have empty bodies.\<close>

definition ThreadLoop :: "'c pool \<Rightarrow> 'c pool" where
  "ThreadLoop p = p"

definition RemoveThreads :: "size_t \<Rightarrow> 'c pool \<Rightarrow> 'c pool" where
  "RemoveThreads nthread p = p"

text \<open>
  A new \<open>std::thread\<close> gets an id that no other joinable thread has.
  \<open>unordered_map::insert\<close> keeps the map as it is when the key is present.
\<close>

definition new_thread_id :: "thread_id list \<Rightarrow> thread_id" where
  "new_thread_id ts = Suc (fold max ts 0)"

definition insert_thread :: "thread_id \<Rightarrow> thread_id list \<Rightarrow> thread_id list" where
  "insert_thread t ts = (if t \<in> set ts then ts else t # ts)"

fun AddThreads_loop :: "nat \<Rightarrow> 'c pool \<Rightarrow> 'c pool" where
  "AddThreads_loop 0 p = p"
| "AddThreads_loop (Suc k) p =
     AddThreads_loop k
       (ThreadLoop (p\<lparr>m_threads := insert_thread (new_thread_id (m_threads p)) (m_threads p)\<rparr>))"

definition AddThreads :: "size_t \<Rightarrow> 'c pool \<Rightarrow> 'c pool" where
  "AddThreads nthread p =
     (let p' = AddThreads_loop (unat nthread) p
      in p'\<lparr>m_running_threads := post nthread (m_running_threads p')\<rparr>)"

definition ThreadPool :: "size_t \<Rightarrow> 'c pool" where
  "ThreadPool threads_num =
     AddThreads threads_num
       \<lparr>m_status = RUNNING, m_threads = [], m_calls = [], m_to_remove = [],
        m_is_empty = Semaphore 0, m_actions = Semaphore 0, m_to_stop = Semaphore 0,
        m_running_threads = Semaphore threads_num\<rparr>"

text \<open>\<open>k\<close> calls of \<open>wait\<close> in a row; \<open>False\<close> when one of them does not complete.\<close>

fun wait_n :: "nat \<Rightarrow> semaphore \<Rightarrow> bool \<times> semaphore" where
  "wait_n 0 s = (True, s)"
| "wait_n (Suc k) s = (case wait s of None \<Rightarrow> (False, s) | Some s' \<Rightarrow> wait_n k s')"

definition Pause :: "'c pool \<Rightarrow> (error + bool) \<times> 'c pool" where
  "Pause p =
     (case m_status p of
        PAUSED \<Rightarrow> (Inr True, p)
      | FINISHED \<Rightarrow> (Inr False, p)
      | RUNNING \<Rightarrow>
          (case wait_n (unat (GetSize p)) (m_running_threads p) of
             (False, s) \<Rightarrow> (Inl Blocked, p\<lparr>m_running_threads := s\<rparr>)
           | (True, s) \<Rightarrow>
               (Inl NoReturnValue,
                p\<lparr>m_running_threads := s, m_actions := post (GetSize p) (m_actions p)\<rparr>)))"

definition Continue :: "'c pool \<Rightarrow> (error + bool) \<times> 'c pool" where
  "Continue p =
     (case m_status p of
        RUNNING \<Rightarrow> (Inr True, p)
      | FINISHED \<Rightarrow> (Inr False, p)
      | PAUSED \<Rightarrow>
          (Inl NoReturnValue,
           p\<lparr>m_running_threads := post (GetSize p) (m_running_threads p)\<rparr>))"

text \<open>\<open>Finish\<close> drops the result of \<open>Continue\<close> and goes on with the state it left.\<close>

definition Finish :: "bool \<Rightarrow> 'c pool \<Rightarrow> (error + bool) \<times> 'c pool" where
  "Finish let_complete p =
     (if m_status p = FINISHED then (Inr False, p)
      else
        let p1 = snd (Continue p);
            waited = (if let_complete then wait (m_is_empty p1) else Some (m_is_empty p1))
        in (case waited of
              None \<Rightarrow> (Inl Blocked, p1)
            | Some s \<Rightarrow>
                let p2 = p1\<lparr>m_is_empty := s, m_status := FINISHED\<rparr>
                in (Inr True, RemoveThreads (GetSize p2) p2)))"

text \<open>
  \<open>THREAD_MAX\<close> is a static constant of the class, initialised once:
  \<^verbatim>\<open>const size_t ThreadPool<Callable>::THREAD_MAX = thread::hardware_concurrency;\<close>
  The initialiser names the function \<open>thread::hardware_concurrency\<close> and does not call
  it. What the platform gives the program here is therefore two values: the number the
  call \<open>hardware_concurrency()\<close> returns (an \<open>unsigned int\<close>), and the value the name
  of the function converts to when it is stored in a \<open>size_t\<close>. The constant holds the
  second one.
\<close>

record platform =
  hardware_concurrency :: "32 word"
  hardware_concurrency_designator :: size_t

definition THREAD_MAX :: "platform \<Rightarrow> size_t" where
  "THREAD_MAX pf = hardware_concurrency_designator pf"

definition SetNumOfThreads :: "platform \<Rightarrow> size_t \<Rightarrow> 'c pool \<Rightarrow> (error + bool) \<times> 'c pool" where
  "SetNumOfThreads pf nthread p =
     (if m_status p = FINISHED then (Inr False, p)
      else if nthread > THREAD_MAX pf then (Inl LengthError, p)
      else if GetSize p \<le> nthread then (Inr True, AddThreads (nthread - GetSize p) p)
      else (Inr True, RemoveThreads (GetSize p - nthread) p))"

subsection \<open>The work queue: \<open>std::priority_queue\<close> over a vector\<close>

text \<open>
  \<open>priority_queue::push\<close> is \<open>push_back\<close> followed by \<open>std::push_heap\<close>, \<open>top\<close> is
  \<open>front\<close>, and \<open>pop\<close> is \<open>std::pop_heap\<close> followed by \<open>pop_back\<close>. The heap
  algorithms are those of the GNU C++ library (\<open>bits/stl_heap.h\<close>), written over
  the vector as a list with indices; \<open>lt\<close> is the \<open>operator<\<close> of \<open>Callable\<close>.

  \<open>push_heap_up\<close> is \<open>__push_heap\<close>: the hole climbs while its parent is less
  than the value.
\<close>

function push_heap_up :: "('c \<Rightarrow> 'c \<Rightarrow> bool) \<Rightarrow> 'c list \<Rightarrow> nat \<Rightarrow> nat \<Rightarrow> 'c \<Rightarrow> 'c list" where
  "push_heap_up lt first holeIndex topIndex val =
     (let parent = (holeIndex - 1) div 2
      in if holeIndex > topIndex \<and> lt (first ! parent) val
         then push_heap_up lt (first[holeIndex := first ! parent]) parent topIndex val
         else first[holeIndex := val])"
  by pat_completeness auto
termination
  by (relation "measure (\<lambda>(lt, first, holeIndex, topIndex, val). holeIndex)") auto

declare push_heap_up.simps [simp del]

definition push_heap :: "('c \<Rightarrow> 'c \<Rightarrow> bool) \<Rightarrow> 'c list \<Rightarrow> 'c list" where
  "push_heap lt first =
     (if first = [] then first
      else push_heap_up lt first (length first - 1) 0 (first ! (length first - 1)))"

text \<open>
  The loop of \<open>__adjust_heap\<close>: the hole sinks to the bottom, the larger child moving
  up each time (the right child unless it is less than the left one).
\<close>

function adjust_heap_loop ::
  "('c \<Rightarrow> 'c \<Rightarrow> bool) \<Rightarrow> 'c list \<Rightarrow> nat \<Rightarrow> nat \<Rightarrow> nat \<Rightarrow> 'c list \<times> nat \<times> nat" where
  "adjust_heap_loop lt first holeIndex secondChild len =
     (if secondChild < (len - 1) div 2
      then
        let sc = 2 * (secondChild + 1);
            sc' = (if lt (first ! sc) (first ! (sc - 1)) then sc - 1 else sc)
        in adjust_heap_loop lt (first[holeIndex := first ! sc']) sc' sc' len
      else (first, holeIndex, secondChild))"
  by pat_completeness auto
termination
  by (relation "measure (\<lambda>(lt, first, holeIndex, secondChild, len). len - secondChild)") auto

declare adjust_heap_loop.simps [simp del]

text \<open>
  \<open>__adjust_heap\<close>: after the loop, a last node with a left child only gives that
  child up; then the value climbs from the hole with \<open>__push_heap\<close>. The indices of
  the source are signed, so for \<open>len < 2\<close> the test \<open>secondChild == (len - 2) / 2\<close>
  compares with a negative number or is cut short by the parity test; the guard
  \<open>2 \<le> len\<close> says so for natural numbers.
\<close>

definition adjust_heap :: "('c \<Rightarrow> 'c \<Rightarrow> bool) \<Rightarrow> 'c list \<Rightarrow> nat \<Rightarrow> nat \<Rightarrow> 'c \<Rightarrow> 'c list" where
  "adjust_heap lt first holeIndex len val =
     (case adjust_heap_loop lt first holeIndex holeIndex len of
        (first1, hole1, secondChild1) \<Rightarrow>
          if even len \<and> 2 \<le> len \<and> secondChild1 = (len - 2) div 2
          then
            let sc = 2 * (secondChild1 + 1)
            in push_heap_up lt (first1[hole1 := first1 ! (sc - 1)]) (sc - 1) holeIndex val
          else push_heap_up lt first1 hole1 holeIndex val)"

text \<open>
  \<open>std::pop_heap\<close>: with more than one element, the last one is taken out as the
  value, the first is stored in its place, and the range without the last position is
  adjusted from the root.
\<close>

definition pop_heap :: "('c \<Rightarrow> 'c \<Rightarrow> bool) \<Rightarrow> 'c list \<Rightarrow> 'c list" where
  "pop_heap lt first =
     (if length first > 1
      then
        let last = length first - 1;
            val = first ! last
        in adjust_heap lt (first[last := first ! 0]) 0 last val
      else first)"

definition pq_push :: "('c \<Rightarrow> 'c \<Rightarrow> bool) \<Rightarrow> 'c \<Rightarrow> 'c list \<Rightarrow> 'c list" where
  "pq_push lt x c = push_heap lt (c @ [x])"

definition pq_top :: "'c list \<Rightarrow> 'c" where
  "pq_top c = c ! 0"

definition pq_pop :: "('c \<Rightarrow> 'c \<Rightarrow> bool) \<Rightarrow> 'c list \<Rightarrow> 'c list" where
  "pq_pop lt c = butlast (pop_heap lt c)"

subsection \<open>Push and Pop\<close>

text \<open>
  \<open>Push\<close> has one \<open>return\<close> statement, in the FINISHED branch. \<open>Pop\<close> has none: it
  moves the top into a local, pops, and reaches the closing brace.
\<close>

definition Push :: "('c \<Rightarrow> 'c \<Rightarrow> bool) \<Rightarrow> 'c \<Rightarrow> 'c pool \<Rightarrow> (error + bool) \<times> 'c pool" where
  "Push lt call p =
     (if m_status p = FINISHED then (Inr False, p)
      else
        (Inl NoReturnValue,
         p\<lparr>m_calls := pq_push lt call (m_calls p),
           m_actions := post 1 (m_actions p),
           m_is_empty := snd (try_wait (m_is_empty p))\<rparr>))"

definition Pop :: "('c \<Rightarrow> 'c \<Rightarrow> bool) \<Rightarrow> 'c pool \<Rightarrow> (error + 'c) \<times> 'c pool" where
  "Pop lt p =
     (if m_calls p = [] then (Inl EmptyQueue, p)
      else (Inl NoReturnValue, p\<lparr>m_calls := pq_pop lt (m_calls p)\<rparr>))"

text \<open>
  A work item with a priority and a label: \<open>operator<\<close> compares priorities only, so two
  items of one priority are equivalent and still told apart.
\<close>

definition by_priority :: "nat \<times> string \<Rightarrow> nat \<times> string \<Rightarrow> bool" where
  "by_priority a b = (fst a < fst b)"

text \<open>Pushing a list of items in order, and popping until the queue is empty.\<close>

fun Push_all :: "('c \<Rightarrow> 'c \<Rightarrow> bool) \<Rightarrow> 'c list \<Rightarrow> 'c pool \<Rightarrow> 'c pool" where
  "Push_all lt [] p = p"
| "Push_all lt (x # xs) p = Push_all lt xs (snd (Push lt x p))"

fun Pop_order :: "('c \<Rightarrow> 'c \<Rightarrow> bool) \<Rightarrow> nat \<Rightarrow> 'c pool \<Rightarrow> 'c list" where
  "Pop_order lt 0 p = []"
| "Pop_order lt (Suc k) p =
     (if m_calls p = [] then []
      else pq_top (m_calls p) # Pop_order lt k (snd (Pop lt p)))"

subsection \<open>The heap order of the work queue\<close>

text \<open>
  What \<open>std::priority_queue\<close> asks of \<open>operator<\<close>: a strict weak ordering
  (irreflexive, transitive, and with a transitive "not less than").
\<close>

definition strict_weak_order :: "('c \<Rightarrow> 'c \<Rightarrow> bool) \<Rightarrow> bool" where
  "strict_weak_order lt =
     ((\<forall>a. \<not> lt a a) \<and> (\<forall>a b c. lt a b \<longrightarrow> lt b c \<longrightarrow> lt a c)
      \<and> (\<forall>a b c. \<not> lt a b \<longrightarrow> \<not> lt b c \<longrightarrow> \<not> lt a c))"

text \<open>
  The first \<open>len\<close> elements form a max-heap: no element is less than its child. The
  parent of index \<open>i\<close> is \<open>(i - 1) div 2\<close>.
\<close>

definition heap_range :: "('c \<Rightarrow> 'c \<Rightarrow> bool) \<Rightarrow> 'c list \<Rightarrow> nat \<Rightarrow> bool" where
  "heap_range lt first len = list_all (\<lambda>i. \<not> lt (first ! ((i - 1) div 2)) (first ! i)) [1..<len]"

definition is_heap :: "('c \<Rightarrow> 'c \<Rightarrow> bool) \<Rightarrow> 'c list \<Rightarrow> bool" where
  "is_heap lt first = heap_range lt first (length first)"

text \<open>
  A heap with a hole: the heap order holds on every edge that does not touch the hole,
  and the parent of the hole is not less than the children of the hole.
\<close>

definition hole_heap :: "('c \<Rightarrow> 'c \<Rightarrow> bool) \<Rightarrow> 'c list \<Rightarrow> nat \<Rightarrow> nat \<Rightarrow> bool" where
  "hole_heap lt first len hole =
     ((\<forall>i. 0 < i \<and> i < len \<and> i \<noteq> hole \<and> (i - 1) div 2 \<noteq> hole \<longrightarrow>
           \<not> lt (first ! ((i - 1) div 2)) (first ! i))
      \<and> (\<forall>i. 0 < i \<and> i < len \<and> (i - 1) div 2 = hole \<and> 0 < hole \<longrightarrow>
           \<not> lt (first ! ((hole - 1) div 2)) (first ! i)))"

section \<open>Properties of the semaphore\<close>

lemma unat_post_le: "unat (m_count (post n s)) \<le> unat (m_count s) + unat n"
  by (simp add: post_def unat_word_ariths)

lemma wait_decrements:
  "wait s = Some s' \<Longrightarrow> 0 < unat (m_count s) \<and> unat (m_count s') + 1 = unat (m_count s)"
  by (auto simp: wait_def IsAvailable_def unat_minus_one word_greater_zero_iff unat_gt_0
      split: if_splits)

lemma timed_wait_decrements:
  "timed_wait t s = (True, s') \<Longrightarrow> 0 < unat (m_count s) \<and> unat (m_count s') + 1 = unat (m_count s)"
  by (auto simp: timed_wait_def Let_def IsAvailable_def unat_minus_one word_greater_zero_iff
      unat_gt_0 split: if_splits)

lemma timed_wait_refuses: "timed_wait t s = (False, s') \<Longrightarrow> s' = s"
  by (auto simp: timed_wait_def Let_def split: if_splits)

lemma sem_exec_granted:
  assumes "sem_exec x s = (True, s')"
  shows "0 < unat (m_count s) \<and> unat (m_count s') + 1 = unat (m_count s)"
proof (cases x)
  case (Post n)
  with assms show ?thesis by simp
next
  case Wait
  with assms show ?thesis by (auto split: option.splits dest: wait_decrements)
next
  case TryWait
  with assms show ?thesis by (auto simp: try_wait_def dest: timed_wait_decrements)
next
  case (TimedWait t)
  with assms show ?thesis by (auto dest: timed_wait_decrements)
qed

lemma sem_exec_refused:
  assumes "sem_exec x s = (False, s')"
  shows "unat (m_count s') \<le> unat (m_count s) + posted_by x"
proof (cases x)
  case (Post n)
  with assms show ?thesis using unat_post_le [of n s] by auto
next
  case Wait
  with assms show ?thesis by (auto split: option.splits)
next
  case TryWait
  with assms show ?thesis by (auto simp: try_wait_def dest: timed_wait_refuses)
next
  case (TimedWait t)
  with assms show ?thesis by (auto dest: timed_wait_refuses)
qed

lemma posted_by_granted: "sem_exec x s = (True, s') \<Longrightarrow> posted_by x = 0"
  by (cases x) auto

lemma sem_exec_bound:
  assumes "sem_exec x s = (ok, s')"
  shows "of_bool ok + unat (m_count s') \<le> unat (m_count s) + posted_by x"
proof (cases ok)
  case True
  with assms sem_exec_granted [of x s s'] show ?thesis by simp
next
  case False
  with assms sem_exec_refused [of x s s'] show ?thesis by simp
qed

lemma sem_run_bound:
  "sem_run xs s = (k, s') \<Longrightarrow> k + unat (m_count s') \<le> unat (m_count s) + total_posted xs"
proof (induction xs arbitrary: s k s')
  case Nil
  then show ?case by (simp add: total_posted_def)
next
  case (Cons x xs)
  obtain ok s1 where e: "sem_exec x s = (ok, s1)" by (cases "sem_exec x s")
  obtain k1 s2 where r: "sem_run xs s1 = (k1, s2)" by (cases "sem_run xs s1")
  from Cons.prems e r have k: "k = of_bool ok + k1" and s2: "s' = s2" by auto
  from Cons.IH [OF r] have "k1 + unat (m_count s2) \<le> unat (m_count s1) + total_posted xs" .
  moreover from sem_exec_bound [OF e]
  have "of_bool ok + unat (m_count s1) \<le> unat (m_count s) + posted_by x" .
  ultimately show ?case using k s2 by (simp add: total_posted_def)
qed

text \<open>
  C3. For every sequence of \<open>post\<close>, \<open>wait\<close>, \<open>try_wait\<close> and \<open>timed_wait\<close> on a
  semaphore created with \<open>init\<close>, the number of completed waits never exceeds the
  initial count plus everything posted, and the counter never exceeds what is left of
  that sum after the completed waits. The counter is never taken below zero: every
  completed wait finds it positive and leaves it exactly one smaller, with no wrap-around.
  A sequence has all its prefixes as sequences, so this holds at every point in time.
\<close>

theorem semaphore_waits_bounded:
  "fst (sem_run xs (Semaphore init)) \<le> unat init + total_posted xs
   \<and> unat (m_count (snd (sem_run xs (Semaphore init))))
        \<le> unat init + total_posted xs - fst (sem_run xs (Semaphore init))
   \<and> (fst (sem_exec x s) \<longrightarrow>
        0 < unat (m_count s) \<and> unat (m_count (snd (sem_exec x s))) + 1 = unat (m_count s))"
proof -
  have "fst (sem_run xs (Semaphore init)) + unat (m_count (snd (sem_run xs (Semaphore init))))
          \<le> unat (m_count (Semaphore init)) + total_posted xs"
    by (rule sem_run_bound) simp
  moreover have "fst (sem_exec x s) \<Longrightarrow>
      0 < unat (m_count s) \<and> unat (m_count (snd (sem_exec x s))) + 1 = unat (m_count s)"
    by (rule sem_exec_granted [of x s "snd (sem_exec x s)"]) (simp add: prod_eq_iff)
  ultimately show ?thesis by (auto simp: Semaphore_def)
qed

theorem semaphore_waits_bounded_witness:
  "fst (sem_run [Post 2, Wait, TryWait, Wait, TimedWait 5, Post 1] (Semaphore 0)) = 2
   \<and> unat (m_count (snd (sem_run [Post 2, Wait, TryWait, Wait, TimedWait 5, Post 1] (Semaphore 0)))) = 1
   \<and> total_posted [Post 2, Wait, TryWait, Wait, TimedWait 5, Post 1] = 3
   \<and> fst (sem_exec Wait (Semaphore 1))
   \<and> unat (m_count (snd (sem_exec Wait (Semaphore 1)))) + 1 = unat (m_count (Semaphore 1))"
  using semaphore_waits_bounded
    [of "[Post 2, Wait, TryWait, Wait, TimedWait 5, Post 1]" 0 Wait "Semaphore 1"]
  by (simp add: Semaphore_def post_def wait_def try_wait_def timed_wait_def IsAvailable_def
      total_posted_def)

text \<open>
  C9. \<open>try_wait\<close> is a total function of the semaphore state (it never sleeps: the
  timeout is zero). On a positive counter it returns true and the counter goes down by
  exactly 1; otherwise it returns false and the semaphore is unchanged. Whenever
  \<open>timed_wait\<close> returns false the semaphore is unchanged.
\<close>

theorem try_wait_spec:
  "(m_count s > 0 \<longrightarrow>
      fst (try_wait s) \<and> 0 < unat (m_count s)
      \<and> unat (m_count (snd (try_wait s))) = unat (m_count s) - 1)
   \<and> (\<not> m_count s > 0 \<longrightarrow> try_wait s = (False, s))
   \<and> (\<not> fst (timed_wait t s) \<longrightarrow> snd (timed_wait t s) = s)"
  by (auto simp: try_wait_def timed_wait_def Let_def IsAvailable_def unat_minus_one
      word_greater_zero_iff unat_gt_0)

theorem try_wait_spec_witness:
  "m_count (Semaphore 3) > 0 \<and> try_wait (Semaphore 3) = (True, Semaphore 2)
   \<and> \<not> m_count (Semaphore 0) > 0 \<and> try_wait (Semaphore 0) = (False, Semaphore 0)
   \<and> \<not> fst (timed_wait 7 (Semaphore 0)) \<and> snd (timed_wait 7 (Semaphore 0)) = Semaphore 0"
  using try_wait_spec [of "Semaphore 3" 7] try_wait_spec [of "Semaphore 0" 7]
  by (simp add: Semaphore_def try_wait_def timed_wait_def IsAvailable_def)

section \<open>Properties of the thread pool\<close>

lemma fold_max_ge: "a \<le> fold max ts (a::nat)"
  by (induction ts arbitrary: a) (auto intro: order_trans [OF max.cobounded2])

lemma le_fold_max: "t \<in> set ts \<Longrightarrow> t \<le> fold max ts (a::nat)"
proof (induction ts arbitrary: a)
  case Nil
  then show ?case by simp
next
  case (Cons u ts)
  show ?case
  proof (cases "t = u")
    case True
    have "u \<le> max u a" by simp
    also have "\<dots> \<le> fold max ts (max u a)" by (rule fold_max_ge)
    finally show ?thesis using True by simp
  next
    case False
    with Cons show ?thesis by simp
  qed
qed

lemma new_thread_id_fresh: "new_thread_id ts \<notin> set ts"
  using le_fold_max [of "new_thread_id ts" ts 0] by (auto simp: new_thread_id_def)

lemma insert_new_thread:
  "insert_thread (new_thread_id ts) ts = new_thread_id ts # ts"
  by (simp add: insert_thread_def new_thread_id_fresh)

lemma AddThreads_loop_threads:
  "length (m_threads (AddThreads_loop k p)) = length (m_threads p) + k"
  by (induction k arbitrary: p) (simp_all add: ThreadLoop_def insert_new_thread)

lemma AddThreads_loop_others:
  "m_status (AddThreads_loop k p) = m_status p"
  "m_calls (AddThreads_loop k p) = m_calls p"
  "m_is_empty (AddThreads_loop k p) = m_is_empty p"
  "m_actions (AddThreads_loop k p) = m_actions p"
  "m_running_threads (AddThreads_loop k p) = m_running_threads p"
  by (induction k arbitrary: p) (simp_all add: ThreadLoop_def)

lemma GetSize_AddThreads: "GetSize (AddThreads n p) = GetSize p + n"
  by (simp add: GetSize_def AddThreads_def Let_def AddThreads_loop_threads)

lemma running_AddThreads:
  "m_count (m_running_threads (AddThreads n p)) = m_count (m_running_threads p) + n"
  by (simp add: AddThreads_def Let_def post_def AddThreads_loop_others)

lemma AddThreads_others:
  "m_status (AddThreads n p) = m_status p"
  "m_calls (AddThreads n p) = m_calls p"
  "m_is_empty (AddThreads n p) = m_is_empty p"
  "m_actions (AddThreads n p) = m_actions p"
  by (simp_all add: AddThreads_def Let_def AddThreads_loop_others)

lemma GetSize_updates:
  "GetSize (p\<lparr>m_status := a\<rparr>) = GetSize p"
  "GetSize (p\<lparr>m_is_empty := b\<rparr>) = GetSize p"
  "GetSize (p\<lparr>m_running_threads := c\<rparr>) = GetSize p"
  "GetSize (p\<lparr>m_actions := d\<rparr>) = GetSize p"
  "GetSize (p\<lparr>m_calls := e\<rparr>) = GetSize p"
  by (simp_all add: GetSize_def)

lemma GetSize_ThreadPool: "GetSize (ThreadPool n) = n"
  by (simp add: ThreadPool_def GetSize_AddThreads) (simp add: GetSize_def)

lemma ThreadPool_fields:
  "m_status (ThreadPool n) = RUNNING"
  "m_calls (ThreadPool n) = []"
  "m_is_empty (ThreadPool n) = Semaphore 0"
  "m_actions (ThreadPool n) = Semaphore 0"
  "m_count (m_running_threads (ThreadPool n)) = n + n"
  by (simp_all add: ThreadPool_def AddThreads_others running_AddThreads Semaphore_def)

text \<open>
  C1. \<open>Push\<close> on a pool that is not FINISHED (here: a pool as the constructor leaves
  it) inserts the item and posts one unit on \<open>m_actions\<close>, but it does not return
  true: it has no \<open>return\<close> statement on that path, so the call yields no value.
\<close>

theorem Push_returns_no_value:
  "fst (Push lt call (ThreadPool n)) = Inl NoReturnValue
   \<and> m_calls (snd (Push lt call (ThreadPool n))) = [call]
   \<and> m_count (m_actions (snd (Push lt call (ThreadPool n)))) = 1"
  by (simp add: Push_def ThreadPool_fields pq_push_def push_heap_def push_heap_up.simps
      post_def Semaphore_def)

text \<open>
  Nothing posts on \<open>m_is_empty\<close>: a counter at 0 stays at 0 under every function of
  the pool, so a caller asleep in \<open>m_is_empty.wait()\<close> is never woken.
\<close>

lemma m_is_empty_stays_zero:
  assumes "m_count (m_is_empty p) = 0"
  shows "m_count (m_is_empty (snd (Push lt call p))) = 0"
    and "m_count (m_is_empty (snd (Pop lt p))) = 0"
    and "m_count (m_is_empty (snd (Pause p))) = 0"
    and "m_count (m_is_empty (snd (Continue p))) = 0"
    and "m_count (m_is_empty (snd (Finish let_complete p))) = 0"
    and "m_count (m_is_empty (snd (SetNumOfThreads pf n p))) = 0"
    and "m_count (m_is_empty (AddThreads n p)) = 0"
    and "m_count (m_is_empty (RemoveThreads n p)) = 0"
    and "m_count (m_is_empty (ThreadLoop p)) = 0"
  using assms
  by (auto simp: Push_def Pop_def Pause_def Continue_def Finish_def SetNumOfThreads_def
      AddThreads_others RemoveThreads_def ThreadLoop_def try_wait_def timed_wait_def
      IsAvailable_def wait_def Let_def split: Status.splits prod.splits bool.splits)

text \<open>
  C2. \<open>Finish(true)\<close> on a pool with one queued item sleeps in \<open>m_is_empty.wait()\<close>:
  the counter is 0 and no function of the pool posts on it. The item is still queued.
  \<open>Finish(false)\<close>, which skips that wait, returns true with \<open>GetSize()\<close> still 1,
  since \<open>RemoveThreads\<close> removes nothing.
\<close>

theorem Finish_drain_blocks:
  "fst (Finish True (snd (Push by_priority (1, ''a'') (ThreadPool 1)))) = Inl Blocked
   \<and> m_calls (snd (Finish True (snd (Push by_priority (1, ''a'') (ThreadPool 1))))) = [(1, ''a'')]
   \<and> fst (Finish False (ThreadPool 1)) = Inr True
   \<and> GetSize (snd (Finish False (ThreadPool 1))) = 1"
  by (simp add: Finish_def Continue_def Push_def ThreadPool_fields pq_push_def push_heap_def
      push_heap_up.simps post_def Semaphore_def wait_def IsAvailable_def try_wait_def
      timed_wait_def RemoveThreads_def Let_def GetSize_updates GetSize_ThreadPool)

lemma Pause_not_running:
  "m_status p = PAUSED \<Longrightarrow> Pause p = (Inr True, p)"
  "m_status p = FINISHED \<Longrightarrow> Pause p = (Inr False, p)"
  by (simp_all add: Pause_def)

text \<open>
  C4. \<open>Pause\<close> on a running pool of one worker waits once on \<open>m_running_threads\<close>,
  which leaves that counter at 1, posts on \<open>m_actions\<close>, leaves the status RUNNING
  and returns no value.
\<close>

theorem Pause_running_pool:
  "fst (Pause (ThreadPool 1)) = Inl NoReturnValue
   \<and> m_status (snd (Pause (ThreadPool 1))) = RUNNING
   \<and> m_count (m_running_threads (snd (Pause (ThreadPool 1)))) = 1
   \<and> m_count (m_actions (snd (Pause (ThreadPool 1)))) = 1"
  by (simp add: Pause_def ThreadPool_def AddThreads_def Let_def ThreadLoop_def insert_thread_def
      new_thread_id_def GetSize_def Semaphore_def post_def wait_def IsAvailable_def)

text \<open>
  C7. A pool constructed with one thread is RUNNING with one worker and two running
  permits: the constructor initialises \<open>m_running_threads\<close> with the thread count and
  \<open>AddThreads\<close> posts the same count again.
\<close>

theorem ThreadPool_permits_twice_workers:
  "GetSize (ThreadPool 1) = 1 \<and> m_count (m_running_threads (ThreadPool 1)) = 2
   \<and> m_status (ThreadPool 1) = RUNNING"
  by (simp add: ThreadPool_fields GetSize_ThreadPool)

text \<open>
  C5. In a FINISHED pool, \<open>Push\<close>, \<open>Pause\<close>, \<open>Continue\<close>, \<open>SetNumOfThreads\<close> and
  \<open>Finish\<close> all return false and leave the whole pool state, hence the status
  FINISHED, as it is.
\<close>

theorem FINISHED_is_terminal:
  "m_status p = FINISHED \<Longrightarrow>
     Push lt call p = (Inr False, p) \<and> Pause p = (Inr False, p)
     \<and> Continue p = (Inr False, p) \<and> SetNumOfThreads pf n p = (Inr False, p)
     \<and> Finish let_complete p = (Inr False, p)"
  by (simp add: Push_def Pause_def Continue_def SetNumOfThreads_def Finish_def)

theorem FINISHED_is_terminal_witness:
  "m_status (snd (Finish False (ThreadPool 2 :: (nat \<times> string) pool))) = FINISHED
   \<and> Push by_priority (1, ''a'') (snd (Finish False (ThreadPool 2)))
       = (Inr False, snd (Finish False (ThreadPool 2)))
   \<and> Pause (snd (Finish False (ThreadPool 2 :: (nat \<times> string) pool)))
       = (Inr False, snd (Finish False (ThreadPool 2)))
   \<and> Continue (snd (Finish False (ThreadPool 2 :: (nat \<times> string) pool)))
       = (Inr False, snd (Finish False (ThreadPool 2)))
   \<and> SetNumOfThreads \<lparr>hardware_concurrency = 8, hardware_concurrency_designator = 8\<rparr> 3
         (snd (Finish False (ThreadPool 2 :: (nat \<times> string) pool)))
       = (Inr False, snd (Finish False (ThreadPool 2)))
   \<and> Finish True (snd (Finish False (ThreadPool 2 :: (nat \<times> string) pool)))
       = (Inr False, snd (Finish False (ThreadPool 2)))"
proof -
  have fin: "m_status (snd (Finish False (ThreadPool 2 :: (nat \<times> string) pool))) = FINISHED"
    by (simp add: Finish_def Continue_def ThreadPool_fields RemoveThreads_def Let_def)
  from FINISHED_is_terminal [OF fin, of by_priority "(1, ''a'')"
      "\<lparr>hardware_concurrency = 8, hardware_concurrency_designator = 8\<rparr>" 3 True] fin
  show ?thesis by blast
qed

text \<open>
  What \<open>SetNumOfThreads\<close> compares with is the stored constant: above it, on a pool
  that is not FINISHED, it throws \<open>length_error\<close> and changes nothing; up to it, it
  returns true.
\<close>

lemma SetNumOfThreads_over_stored_constant:
  "m_status p \<noteq> FINISHED \<Longrightarrow> THREAD_MAX pf < n \<Longrightarrow>
     SetNumOfThreads pf n p = (Inl LengthError, p)"
  by (simp add: SetNumOfThreads_def)

lemma SetNumOfThreads_up_to_stored_constant:
  "m_status p \<noteq> FINISHED \<Longrightarrow> n \<le> THREAD_MAX pf \<Longrightarrow>
     fst (SetNumOfThreads pf n p) = Inr True"
  by (auto simp: SetNumOfThreads_def)

text \<open>
  C8. The stored constant is not the hardware-concurrency ceiling. On a platform where
  \<open>hardware_concurrency()\<close> returns 4 and the name of the function converts to
  4198400 (hexadecimal 401000), \<open>SetNumOfThreads(5)\<close> on a new pool of one thread is
  above the ceiling, yet it throws nothing: it returns true and the pool has five
  workers.
\<close>

theorem SetNumOfThreads_above_hardware_concurrency:
  "unat (hardware_concurrency
           \<lparr>hardware_concurrency = 4, hardware_concurrency_designator = 4198400\<rparr>)
     < unat (5 :: size_t)
   \<and> m_status (ThreadPool 1 :: (nat \<times> string) pool) \<noteq> FINISHED
   \<and> fst (SetNumOfThreads
             \<lparr>hardware_concurrency = 4, hardware_concurrency_designator = 4198400\<rparr> 5
             (ThreadPool 1 :: (nat \<times> string) pool)) = Inr True
   \<and> GetSize (snd (SetNumOfThreads
             \<lparr>hardware_concurrency = 4, hardware_concurrency_designator = 4198400\<rparr> 5
             (ThreadPool 1 :: (nat \<times> string) pool))) = 5
   \<and> GetSize (ThreadPool 1 :: (nat \<times> string) pool) = 1"
  by (simp add: SetNumOfThreads_def THREAD_MAX_def ThreadPool_fields GetSize_ThreadPool
      GetSize_AddThreads)

section \<open>Properties of the work queue\<close>

lemma heap_range_iff:
  "heap_range lt xs n \<longleftrightarrow> (\<forall>i. 0 < i \<and> i < n \<longrightarrow> \<not> lt (xs ! ((i - 1) div 2)) (xs ! i))"
  by (auto simp: heap_range_def list_all_iff)

lemma swo_asym: "strict_weak_order lt \<Longrightarrow> lt a b \<Longrightarrow> \<not> lt b a"
  unfolding strict_weak_order_def by blast

lemma swo_ntrans: "strict_weak_order lt \<Longrightarrow> \<not> lt a b \<Longrightarrow> \<not> lt b c \<Longrightarrow> \<not> lt a c"
  unfolding strict_weak_order_def by blast

lemma swo_mixed: "strict_weak_order lt \<Longrightarrow> lt a b \<Longrightarrow> \<not> lt a c \<Longrightarrow> \<not> lt b c"
  unfolding strict_weak_order_def by blast

lemma swo_irrefl: "strict_weak_order lt \<Longrightarrow> \<not> lt a a"
  unfolding strict_weak_order_def by blast

lemma parent_less: "0 < h \<Longrightarrow> (h - 1) div 2 < (h::nat)"
  by arith

lemma push_heap_up_heap:
  assumes swo: "strict_weak_order lt"
  shows "h < n \<Longrightarrow> n \<le> length xs \<Longrightarrow>
     (\<forall>i. 0 < i \<and> i < n \<and> i \<noteq> h \<and> (i - 1) div 2 \<noteq> h \<longrightarrow> \<not> lt (xs ! ((i - 1) div 2)) (xs ! i)) \<Longrightarrow>
     (\<forall>i. 0 < i \<and> i < n \<and> (i - 1) div 2 = h \<longrightarrow> \<not> lt v (xs ! i)) \<Longrightarrow>
     (\<forall>i. 0 < i \<and> i < n \<and> (i - 1) div 2 = h \<and> 0 < h \<longrightarrow> \<not> lt (xs ! ((h - 1) div 2)) (xs ! i)) \<Longrightarrow>
     heap_range lt (push_heap_up lt xs h 0 v) n"
proof (induction h arbitrary: xs rule: less_induct)
  case (less h)
  let ?P = "(h - 1) div 2"
  note E = less.prems(3) and C = less.prems(4) and G = less.prems(5)
  have hn: "h < n" and nl: "n \<le> length xs" by fact+
  show ?case
  proof (cases "0 < h \<and> lt (xs ! ?P) v")
    case False
    then have res: "push_heap_up lt xs h 0 v = xs[h := v]"
      by (subst push_heap_up.simps) (auto simp: Let_def)
    have "\<not> lt (xs[h := v] ! ((i - 1) div 2)) (xs[h := v] ! i)" if i: "0 < i" "i < n" for i
    proof (cases "i = h")
      case True
      with i False have "\<not> lt (xs ! ?P) v" by simp
      moreover have "?P \<noteq> h" using True i parent_less [of h] by simp
      ultimately show ?thesis using True hn nl by (simp add: nth_list_update)
    next
      case ih: False
      show ?thesis
      proof (cases "(i - 1) div 2 = h")
        case True
        with C i have "\<not> lt v (xs ! i)" by blast
        with True ih hn nl show ?thesis by (simp add: nth_list_update)
      next
        case False
        with E i ih have "\<not> lt (xs ! ((i - 1) div 2)) (xs ! i)" by blast
        with False ih show ?thesis by (simp add: nth_list_update)
      qed
    qed
    then show ?thesis by (simp add: res heap_range_iff)
  next
    case True
    then have h0: "0 < h" and ltP: "lt (xs ! ?P) v" by simp_all
    have Ph: "?P < h" using h0 by (rule parent_less)
    let ?xs = "xs[h := xs ! ?P]"
    have res: "push_heap_up lt xs h 0 v = push_heap_up lt ?xs ?P 0 v"
      using True by (subst push_heap_up.simps) (simp add: Let_def)
    have Pn: "?P < n" using Ph hn by simp
    have nl': "n \<le> length ?xs" using nl by simp
    have E': "\<forall>i. 0 < i \<and> i < n \<and> i \<noteq> ?P \<and> (i - 1) div 2 \<noteq> ?P \<longrightarrow>
        \<not> lt (?xs ! ((i - 1) div 2)) (?xs ! i)"
    proof (intro allI impI)
      fix i assume a: "0 < i \<and> i < n \<and> i \<noteq> ?P \<and> (i - 1) div 2 \<noteq> ?P"
      then have ih: "i \<noteq> h" by auto
      show "\<not> lt (?xs ! ((i - 1) div 2)) (?xs ! i)"
      proof (cases "(i - 1) div 2 = h")
        case True
        with G a h0 have "\<not> lt (xs ! ?P) (xs ! i)" by blast
        with True ih hn nl show ?thesis by (simp add: nth_list_update)
      next
        case False
        with E a ih have "\<not> lt (xs ! ((i - 1) div 2)) (xs ! i)" by blast
        with False ih show ?thesis by (simp add: nth_list_update)
      qed
    qed
    have C': "\<forall>i. 0 < i \<and> i < n \<and> (i - 1) div 2 = ?P \<longrightarrow> \<not> lt v (?xs ! i)"
    proof (intro allI impI)
      fix i assume a: "0 < i \<and> i < n \<and> (i - 1) div 2 = ?P"
      show "\<not> lt v (?xs ! i)"
      proof (cases "i = h")
        case True
        from swo_asym [OF swo ltP] have "\<not> lt v (xs ! ?P)" .
        with True hn nl show ?thesis by (simp add: nth_list_update)
      next
        case False
        have "(i - 1) div 2 \<noteq> h" using a Ph by simp
        with E a False have "\<not> lt (xs ! ((i - 1) div 2)) (xs ! i)" by blast
        with a have "\<not> lt (xs ! ?P) (xs ! i)" by simp
        from swo_mixed [OF swo ltP this] have "\<not> lt v (xs ! i)" .
        with False show ?thesis by (simp add: nth_list_update)
      qed
    qed
    have G': "\<forall>i. 0 < i \<and> i < n \<and> (i - 1) div 2 = ?P \<and> 0 < ?P \<longrightarrow>
        \<not> lt (?xs ! ((?P - 1) div 2)) (?xs ! i)"
    proof (intro allI impI)
      fix i assume a: "0 < i \<and> i < n \<and> (i - 1) div 2 = ?P \<and> 0 < ?P"
      let ?PP = "(?P - 1) div 2"
      have PP: "?PP < ?P" using a by (intro parent_less) simp
      then have PPh: "?PP \<noteq> h" using Ph by simp
      have "?P \<noteq> h" using Ph by simp
      with E a Pn PPh have top: "\<not> lt (xs ! ?PP) (xs ! ?P)" by blast
      show "\<not> lt (?xs ! ?PP) (?xs ! i)"
      proof (cases "i = h")
        case True
        with top PPh hn nl show ?thesis by (simp add: nth_list_update)
      next
        case False
        have "(i - 1) div 2 \<noteq> h" using a Ph by simp
        with E a False have "\<not> lt (xs ! ((i - 1) div 2)) (xs ! i)" by blast
        with a have "\<not> lt (xs ! ?P) (xs ! i)" by simp
        from swo_ntrans [OF swo top this] have "\<not> lt (xs ! ?PP) (xs ! i)" .
        with False PPh show ?thesis by (simp add: nth_list_update)
      qed
    qed
    from less.IH [OF Ph Pn nl' E' C' G'] show ?thesis by (simp add: res)
  qed
qed

lemma push_heap_up_hole:
  assumes "strict_weak_order lt" "h < n" "n \<le> length xs" "hole_heap lt xs n h"
    and "\<forall>i. 0 < i \<and> i < n \<and> (i - 1) div 2 = h \<longrightarrow> \<not> lt v (xs ! i)"
  shows "heap_range lt (push_heap_up lt xs h 0 v) n"
  using assms push_heap_up_heap [of lt h n xs v] unfolding hole_heap_def by blast

lemma mset_hole_move:
  assumes "h < length xs" "c < length xs"
  shows "mset (xs[h := xs ! c, c := v]) = mset (xs[h := v])"
proof (cases "h = c")
  case True
  then show ?thesis by simp
next
  case False
  let ?ls = "xs[h := v]"
  have "mset (?ls[h := ?ls ! c, c := ?ls ! h]) = mset ?ls"
    using assms by (intro mset_swap) simp_all
  moreover have "?ls[h := ?ls ! c, c := ?ls ! h] = xs[h := xs ! c, c := v]"
    using assms False by simp
  ultimately show ?thesis by simp
qed

lemma push_heap_up_shape:
  "h < length xs \<Longrightarrow>
     length (push_heap_up lt xs h 0 v) = length xs
     \<and> (\<forall>j. h < j \<longrightarrow> push_heap_up lt xs h 0 v ! j = xs ! j)
     \<and> mset (push_heap_up lt xs h 0 v) = mset (xs[h := v])"
proof (induction h arbitrary: xs rule: less_induct)
  case (less h)
  let ?P = "(h - 1) div 2"
  show ?case
  proof (cases "0 < h \<and> lt (xs ! ?P) v")
    case False
    then have "push_heap_up lt xs h 0 v = xs[h := v]"
      by (subst push_heap_up.simps) (auto simp: Let_def)
    then show ?thesis by simp
  next
    case True
    then have Ph: "?P < h" by (intro parent_less) simp
    let ?xs = "xs[h := xs ! ?P]"
    have res: "push_heap_up lt xs h 0 v = push_heap_up lt ?xs ?P 0 v"
      using True by (subst push_heap_up.simps) (simp add: Let_def)
    have Pl: "?P < length ?xs" using Ph less.prems by simp
    from less.IH [OF Ph Pl]
    have len: "length (push_heap_up lt ?xs ?P 0 v) = length ?xs"
      and same: "\<forall>j. ?P < j \<longrightarrow> push_heap_up lt ?xs ?P 0 v ! j = ?xs ! j"
      and ms: "mset (push_heap_up lt ?xs ?P 0 v) = mset (?xs[?P := v])"
      by blast+
    have "mset (?xs[?P := v]) = mset (xs[h := v])"
      using less.prems Ph by (intro mset_hole_move) simp_all
    with len same ms Ph show ?thesis by (simp add: res)
  qed
qed

lemma adjust_heap_loop_inv:
  assumes swo: "strict_weak_order lt"
  shows "h < n \<Longrightarrow> n \<le> length xs \<Longrightarrow> hole_heap lt xs n h \<Longrightarrow>
     adjust_heap_loop lt xs h h n = (ys, k, sc) \<Longrightarrow>
     sc = k \<and> k < n \<and> (n - 1) div 2 \<le> k \<and> length ys = length xs
     \<and> (\<forall>j. n \<le> j \<longrightarrow> ys ! j = xs ! j)
     \<and> mset (ys[k := v]) = mset (xs[h := v]) \<and> hole_heap lt ys n k"
proof (induction "n - h" arbitrary: xs h rule: less_induct)
  case less
  have hn: "h < n" and nl: "n \<le> length xs" and hh: "hole_heap lt xs n h" by fact+
  note run = less.prems(4)
  show ?case
  proof (cases "h < (n - 1) div 2")
    case False
    then have "adjust_heap_loop lt xs h h n = (xs, h, h)"
      by (subst adjust_heap_loop.simps) simp
    with run False hn hh show ?thesis by simp
  next
    case True
    let ?sc = "2 * (h + 1)"
    define c where "c = (if lt (xs ! ?sc) (xs ! (?sc - 1)) then ?sc - 1 else ?sc)"
    let ?xs = "xs[h := xs ! c]"
    have step: "adjust_heap_loop lt xs h h n = adjust_heap_loop lt ?xs c c n"
      using True by (subst adjust_heap_loop.simps) (simp add: Let_def c_def)
    have scn: "?sc < n" using True by arith
    have c12: "c = 2 * h + 1 \<or> c = 2 * h + 2" by (auto simp: c_def)
    then have cn: "c < n" and hc: "h < c" and pc: "(c - 1) div 2 = h" and c0: "0 < c"
      using scn by auto
    have sib: "\<not> lt (xs ! c) (xs ! i)" if "i = 2 * h + 1 \<or> i = 2 * h + 2" "i \<noteq> c" for i
    proof (cases "lt (xs ! ?sc) (xs ! (?sc - 1))")
      case True
      then have "c = 2 * h + 1" by (simp add: c_def)
      with that have "i = ?sc" by auto
      moreover from swo_asym [OF swo True] have "\<not> lt (xs ! (?sc - 1)) (xs ! ?sc)" .
      ultimately show ?thesis using \<open>c = 2 * h + 1\<close> by simp
    next
      case False
      then have "c = ?sc" by (simp add: c_def)
      with that have "i = ?sc - 1" by auto
      with False \<open>c = ?sc\<close> show ?thesis by simp
    qed
    from hh have E: "\<And>i. 0 < i \<Longrightarrow> i < n \<Longrightarrow> i \<noteq> h \<Longrightarrow> (i - 1) div 2 \<noteq> h \<Longrightarrow>
          \<not> lt (xs ! ((i - 1) div 2)) (xs ! i)"
      and G: "\<And>i. 0 < i \<Longrightarrow> i < n \<Longrightarrow> (i - 1) div 2 = h \<Longrightarrow> 0 < h \<Longrightarrow>
          \<not> lt (xs ! ((h - 1) div 2)) (xs ! i)"
      unfolding hole_heap_def by blast+
    have hh': "hole_heap lt ?xs n c"
      unfolding hole_heap_def
    proof (intro conjI allI impI)
      fix i assume a: "0 < i \<and> i < n \<and> i \<noteq> c \<and> (i - 1) div 2 \<noteq> c"
      show "\<not> lt (?xs ! ((i - 1) div 2)) (?xs ! i)"
      proof (cases "i = h")
        case True
        then have h0: "0 < h" using a by simp
        have "\<not> lt (xs ! ((h - 1) div 2)) (xs ! c)" using G [OF c0 cn pc h0] .
        moreover have "(h - 1) div 2 \<noteq> h" using parent_less [OF h0] by simp
        ultimately show ?thesis using True hn nl by (simp add: nth_list_update)
      next
        case ih: False
        show ?thesis
        proof (cases "(i - 1) div 2 = h")
          case True
          then have "i = 2 * h + 1 \<or> i = 2 * h + 2" using a by arith
          with a have "\<not> lt (xs ! c) (xs ! i)" by (intro sib) simp_all
          with True ih hn nl show ?thesis by (simp add: nth_list_update)
        next
          case False
          with E [of i] a ih have "\<not> lt (xs ! ((i - 1) div 2)) (xs ! i)" by simp
          with False ih show ?thesis by (simp add: nth_list_update)
        qed
      qed
    next
      fix i assume a: "0 < i \<and> i < n \<and> (i - 1) div 2 = c \<and> 0 < c"
      then have ih: "i \<noteq> h" and ph: "(i - 1) div 2 \<noteq> h" using hc by auto
      with E [of i] a have "\<not> lt (xs ! c) (xs ! i)" by simp
      with ih pc hn nl show "\<not> lt (?xs ! ((c - 1) div 2)) (?xs ! i)"
        by (simp add: nth_list_update)
    qed
    have m: "n - c < n - h" using hc cn by simp
    have nl': "n \<le> length ?xs" using nl by simp
    from run have run': "adjust_heap_loop lt ?xs c c n = (ys, k, sc)" by (simp add: step)
    from less.hyps [OF m cn nl' hh' run']
    have r: "sc = k" "k < n" "(n - 1) div 2 \<le> k" "length ys = length ?xs"
      "\<forall>j. n \<le> j \<longrightarrow> ys ! j = ?xs ! j" "mset (ys[k := v]) = mset (?xs[c := v])"
      "hole_heap lt ys n k"
      by blast+
    have "mset (?xs[c := v]) = mset (xs[h := v])"
      using hn cn nl by (intro mset_hole_move) simp_all
    with r hn show ?thesis by (simp add: nth_list_update)
  qed
qed

lemma adjust_heap_root:
  assumes swo: "strict_weak_order lt" and n0: "0 < n" and nl: "n \<le> length xs"
    and heap: "heap_range lt xs n"
  shows "heap_range lt (adjust_heap lt xs 0 n v) n
     \<and> length (adjust_heap lt xs 0 n v) = length xs
     \<and> (\<forall>j. n \<le> j \<longrightarrow> adjust_heap lt xs 0 n v ! j = xs ! j)
     \<and> mset (adjust_heap lt xs 0 n v) = mset (xs[0 := v])"
proof -
  obtain ys k sc where run: "adjust_heap_loop lt xs 0 0 n = (ys, k, sc)"
    by (cases "adjust_heap_loop lt xs 0 0 n")
  have hh0: "hole_heap lt xs n 0"
    using heap by (simp add: hole_heap_def heap_range_iff)
  from adjust_heap_loop_inv [OF swo n0 nl hh0 run, of v]
  have r: "sc = k" "k < n" "(n - 1) div 2 \<le> k" "length ys = length xs"
    "\<forall>j. n \<le> j \<longrightarrow> ys ! j = xs ! j" "mset (ys[k := v]) = mset (xs[0 := v])"
    "hole_heap lt ys n k"
    by blast+
  from r(7) have E: "\<And>i. 0 < i \<Longrightarrow> i < n \<Longrightarrow> i \<noteq> k \<Longrightarrow> (i - 1) div 2 \<noteq> k \<Longrightarrow>
        \<not> lt (ys ! ((i - 1) div 2)) (ys ! i)"
    and G: "\<And>i. 0 < i \<Longrightarrow> i < n \<Longrightarrow> (i - 1) div 2 = k \<Longrightarrow> 0 < k \<Longrightarrow>
        \<not> lt (ys ! ((k - 1) div 2)) (ys ! i)"
    unfolding hole_heap_def by blast+
  have nl': "n \<le> length ys" using nl r(4) by simp
  show ?thesis
  proof (cases "even n \<and> 2 \<le> n \<and> k = (n - 2) div 2")
    case True
    let ?c = "2 * k + 1"
    let ?ys = "ys[k := ys ! ?c]"
    have res: "adjust_heap lt xs 0 n v = push_heap_up lt ?ys ?c 0 v"
      using True run r(1) by (simp add: adjust_heap_def Let_def)
    have n2: "n = 2 * k + 2" using True by (auto elim!: evenE)
    have cn: "?c < n" using n2 by simp
    have hh: "hole_heap lt ?ys n ?c"
      unfolding hole_heap_def
    proof (intro conjI allI impI)
      fix i assume a: "0 < i \<and> i < n \<and> i \<noteq> ?c \<and> (i - 1) div 2 \<noteq> ?c"
      show "\<not> lt (?ys ! ((i - 1) div 2)) (?ys ! i)"
      proof (cases "i = k")
        case True
        then have k0: "0 < k" using a by simp
        have "\<not> lt (ys ! ((k - 1) div 2)) (ys ! ?c)" using G [of ?c] cn k0 by simp
        moreover have "(k - 1) div 2 \<noteq> k" using parent_less [OF k0] by simp
        ultimately show ?thesis using True r(2) nl' by (simp add: nth_list_update)
      next
        case ik: False
        have "(i - 1) div 2 \<noteq> k" using a n2 by arith
        with E [of i] a ik have "\<not> lt (ys ! ((i - 1) div 2)) (ys ! i)" by simp
        with \<open>(i - 1) div 2 \<noteq> k\<close> ik show ?thesis by (simp add: nth_list_update)
      qed
    next
      fix i assume a: "0 < i \<and> i < n \<and> (i - 1) div 2 = ?c \<and> 0 < ?c"
      then have False using n2 by arith
      then show "\<not> lt (?ys ! ((?c - 1) div 2)) (?ys ! i)" ..
    qed
    have leaf: "\<forall>i. 0 < i \<and> i < n \<and> (i - 1) div 2 = ?c \<longrightarrow> \<not> lt v (?ys ! i)"
      using n2 by arith
    have nl'': "n \<le> length ?ys" using nl' by simp
    have cl: "?c < length ?ys" using cn nl'' by simp
    from push_heap_up_hole [OF swo cn nl'' hh leaf]
    have h: "heap_range lt (push_heap_up lt ?ys ?c 0 v) n" .
    from push_heap_up_shape [OF cl, of lt v]
    have len: "length (push_heap_up lt ?ys ?c 0 v) = length ?ys"
      and same: "\<forall>j. ?c < j \<longrightarrow> push_heap_up lt ?ys ?c 0 v ! j = ?ys ! j"
      and ms: "mset (push_heap_up lt ?ys ?c 0 v) = mset (?ys[?c := v])"
      by blast+
    have "mset (?ys[?c := v]) = mset (ys[k := v])"
      using r(2) cn nl' by (intro mset_hole_move) simp_all
    with ms r(6) have ms': "mset (push_heap_up lt ?ys ?c 0 v) = mset (xs[0 := v])" by simp
    have "push_heap_up lt ?ys ?c 0 v ! j = xs ! j" if "n \<le> j" for j
    proof -
      have "?c < j" using that cn by simp
      with same have "push_heap_up lt ?ys ?c 0 v ! j = ?ys ! j" by blast
      also have "\<dots> = ys ! j" using that r(2) by (simp add: nth_list_update)
      also have "\<dots> = xs ! j" using that r(5) by blast
      finally show ?thesis .
    qed
    with h len ms' r(4) show ?thesis by (simp add: res)
  next
    case False
    have res: "adjust_heap lt xs 0 n v = push_heap_up lt ys k 0 v"
      using False run r(1) by (auto simp: adjust_heap_def Let_def)
    have leafk: "n \<le> 2 * k + 1" using False r(3) n0 by (cases "even n") (auto elim!: evenE oddE)
    have leaf: "\<forall>i. 0 < i \<and> i < n \<and> (i - 1) div 2 = k \<longrightarrow> \<not> lt v (ys ! i)"
      using leafk by arith
    have kl: "k < length ys" using r(2) nl' by simp
    from push_heap_up_hole [OF swo r(2) nl' r(7) leaf]
    have h: "heap_range lt (push_heap_up lt ys k 0 v) n" .
    from push_heap_up_shape [OF kl, of lt v]
    have len: "length (push_heap_up lt ys k 0 v) = length ys"
      and same: "\<forall>j. k < j \<longrightarrow> push_heap_up lt ys k 0 v ! j = ys ! j"
      and ms: "mset (push_heap_up lt ys k 0 v) = mset (ys[k := v])"
      by blast+
    have "push_heap_up lt ys k 0 v ! j = xs ! j" if "n \<le> j" for j
    proof -
      have "k < j" using that r(2) by simp
      with same have "push_heap_up lt ys k 0 v ! j = ys ! j" by blast
      also have "\<dots> = xs ! j" using that r(5) by blast
      finally show ?thesis .
    qed
    with h len ms r(4) r(6) show ?thesis by (simp add: res)
  qed
qed

lemma is_heap_Nil: "is_heap lt []"
  by (simp add: is_heap_def heap_range_def)

lemma pq_pop_heap:
  assumes swo: "strict_weak_order lt" and heap: "is_heap lt c"
  shows "is_heap lt (pq_pop lt c)
     \<and> length (pq_pop lt c) = length c - 1
     \<and> (c \<noteq> [] \<longrightarrow> mset (pq_pop lt c) = mset c - {#pq_top c#})"
proof (cases "length c > 1")
  case False
  then have "c = [] \<or> (\<exists>x. c = [x])" by (cases c) auto
  then show ?thesis
    by (auto simp: pq_pop_def pop_heap_def pq_top_def is_heap_Nil)
next
  case True
  define n where "n = length c - 1"
  let ?xs = "c[n := c ! 0]"
  let ?r = "adjust_heap lt ?xs 0 n (c ! n)"
  have n0: "0 < n" and nc: "n < length c" using True by (simp_all add: n_def)
  have res: "pq_pop lt c = butlast ?r"
    using True by (simp add: pq_pop_def pop_heap_def Let_def n_def)
  have nl: "n \<le> length ?xs" using nc by simp
  have h0: "heap_range lt ?xs n"
    unfolding heap_range_iff
  proof (intro allI impI)
    fix i assume a: "0 < i \<and> i < n"
    then have "(i - 1) div 2 < n" by arith
    moreover from heap a nc have "\<not> lt (c ! ((i - 1) div 2)) (c ! i)"
      by (simp add: is_heap_def heap_range_iff)
    ultimately show "\<not> lt (?xs ! ((i - 1) div 2)) (?xs ! i)"
      using a by (simp add: nth_list_update)
  qed
  from adjust_heap_root [OF swo n0 nl h0, of "c ! n"]
  have h: "heap_range lt ?r n" and len: "length ?r = length ?xs"
    and same: "\<forall>j. n \<le> j \<longrightarrow> ?r ! j = ?xs ! j"
    and ms: "mset ?r = mset (?xs[0 := c ! n])"
    by blast+
  have lenr: "length ?r = Suc n" using len nc by (simp add: n_def)
  then have rne: "?r \<noteq> []" by auto
  have "last ?r = ?r ! n" using lenr rne by (simp add: last_conv_nth)
  also have "\<dots> = ?xs ! n" using same by simp
  also have "\<dots> = c ! 0" using nc by simp
  finally have lastr: "last ?r = c ! 0" .
  have cne: "c \<noteq> []" using True by auto
  have "mset (c[n := c ! 0, 0 := c ! n]) = mset c"
    using nc cne by (intro mset_swap) simp_all
  with ms have "mset ?r = mset c" by simp
  moreover have "mset ?r = mset (butlast ?r) + {#last ?r#}"
    using rne by (metis append_butlast_last_id mset.simps(1,2) mset_append union_mset_add_mset_right add.right_neutral)
  ultimately have "mset c = add_mset (c ! 0) (mset (butlast ?r))"
    using lastr by simp
  then have msb: "mset (butlast ?r) = mset c - {#c ! 0#}"
    by simp
  have "heap_range lt (butlast ?r) n"
    unfolding heap_range_iff
  proof (intro allI impI)
    fix i assume a: "0 < i \<and> i < n"
    then have "(i - 1) div 2 < n" by arith
    with a h lenr show "\<not> lt (butlast ?r ! ((i - 1) div 2)) (butlast ?r ! i)"
      by (simp add: nth_butlast heap_range_iff)
  qed
  then have "is_heap lt (butlast ?r)" using lenr by (simp add: is_heap_def)
  with msb lenr show ?thesis by (simp add: res pq_top_def n_def)
qed

lemma pq_push_heap:
  assumes swo: "strict_weak_order lt" and heap: "is_heap lt c"
  shows "is_heap lt (pq_push lt x c) \<and> mset (pq_push lt x c) = add_mset x (mset c)
     \<and> length (pq_push lt x c) = Suc (length c)"
proof -
  let ?xs = "c @ [x]"
  let ?h = "length c"
  let ?n = "Suc (length c)"
  have res: "pq_push lt x c = push_heap_up lt ?xs ?h 0 x"
    by (simp add: pq_push_def push_heap_def)
  have hh: "hole_heap lt ?xs ?n ?h"
    unfolding hole_heap_def
  proof (intro conjI allI impI)
    fix i assume a: "0 < i \<and> i < ?n \<and> i \<noteq> ?h \<and> (i - 1) div 2 \<noteq> ?h"
    then have i: "i < length c" by simp
    then have "(i - 1) div 2 < length c" by arith
    moreover from heap a i have "\<not> lt (c ! ((i - 1) div 2)) (c ! i)"
      by (simp add: is_heap_def heap_range_iff)
    ultimately show "\<not> lt (?xs ! ((i - 1) div 2)) (?xs ! i)"
      using i by (simp add: nth_append)
  next
    fix i assume a: "0 < i \<and> i < ?n \<and> (i - 1) div 2 = ?h \<and> 0 < ?h"
    then have False by arith
    then show "\<not> lt (?xs ! ((?h - 1) div 2)) (?xs ! i)" ..
  qed
  have leaf: "\<forall>i. 0 < i \<and> i < ?n \<and> (i - 1) div 2 = ?h \<longrightarrow> \<not> lt x (?xs ! i)"
    by arith
  have "heap_range lt (push_heap_up lt ?xs ?h 0 x) ?n"
    by (rule push_heap_up_hole [OF swo _ _ hh leaf]) simp_all
  moreover from push_heap_up_shape [of ?h ?xs lt x]
  have "length (push_heap_up lt ?xs ?h 0 x) = length ?xs"
    and "mset (push_heap_up lt ?xs ?h 0 x) = mset (?xs[?h := x])"
    by simp_all
  ultimately show ?thesis by (simp add: res is_heap_def)
qed

lemma heap_top_greatest:
  assumes swo: "strict_weak_order lt" and heap: "is_heap lt c"
  shows "i < length c \<Longrightarrow> \<not> lt (pq_top c) (c ! i)"
proof (induction i rule: less_induct)
  case (less i)
  show ?case
  proof (cases "i = 0")
    case True
    then show ?thesis using swo_irrefl [OF swo] by (simp add: pq_top_def)
  next
    case False
    then have p: "(i - 1) div 2 < i" by (intro parent_less) simp
    with less.prems have "\<not> lt (pq_top c) (c ! ((i - 1) div 2))" by (intro less.IH) simp_all
    moreover from heap less.prems False have "\<not> lt (c ! ((i - 1) div 2)) (c ! i)"
      by (simp add: is_heap_def heap_range_iff)
    ultimately show ?thesis by (rule swo_ntrans [OF swo])
  qed
qed

lemma push_heap_up_length: "length (push_heap_up lt xs h t v) = length xs"
proof (induction lt xs h t v rule: push_heap_up.induct)
  case (1 lt first holeIndex topIndex val)
  show ?case
  proof (cases "holeIndex > topIndex \<and> lt (first ! ((holeIndex - 1) div 2)) val")
    case True
    with 1 show ?thesis by (subst push_heap_up.simps) (simp add: Let_def)
  next
    case False
    then show ?thesis by (subst push_heap_up.simps) (auto simp: Let_def)
  qed
qed

lemma adjust_heap_loop_length:
  "length (fst (adjust_heap_loop lt xs h sc n)) = length xs"
proof (induction lt xs h sc n rule: adjust_heap_loop.induct)
  case (1 lt first holeIndex secondChild len)
  show ?case
  proof (cases "secondChild < (len - 1) div 2")
    case True
    with 1 show ?thesis by (subst adjust_heap_loop.simps) (simp add: Let_def)
  next
    case False
    then show ?thesis by (subst adjust_heap_loop.simps) simp
  qed
qed

lemma adjust_heap_length: "length (adjust_heap lt xs h n v) = length xs"
proof -
  obtain ys k sc where run: "adjust_heap_loop lt xs h h n = (ys, k, sc)"
    by (cases "adjust_heap_loop lt xs h h n")
  with adjust_heap_loop_length [of lt xs h h n] have "length ys = length xs" by simp
  with run show ?thesis by (simp add: adjust_heap_def Let_def push_heap_up_length)
qed

lemma pq_pop_length: "length (pq_pop lt c) = length c - 1"
  by (simp add: pq_pop_def pop_heap_def Let_def adjust_heap_length)

lemma swo_by_priority: "strict_weak_order by_priority"
  by (auto simp: strict_weak_order_def by_priority_def)

text \<open>
  C6 as stated fails. Four items of one priority are pushed in the order a, b, c, d into
  the queue of a new pool; \<open>Pop\<close> then takes a, c, b, d: c leaves before b, which was
  pushed first.
\<close>

theorem equal_priority_not_in_push_order:
  "Pop_order by_priority 4
     (Push_all by_priority [(1, ''a''), (1, ''b''), (1, ''c''), (1, ''d'')] (ThreadPool 1))
     = [(1, ''a''), (1, ''c''), (1, ''b''), (1, ''d'')]"
  by code_simp

text \<open>
  C6, amended. The work queue is a binary max-heap under \<open>operator<\<close>, with no rule
  for items of equal priority. For a strict weak ordering: the queue of a new pool is a
  heap, \<open>Push\<close> and \<open>Pop\<close> keep it a heap, so the item at the top, which is the one
  \<open>Pop\<close> removes, is never less than any queued item; \<open>Pop\<close> removes exactly that
  item and \<open>Push\<close> on a pool that is not FINISHED adds exactly the pushed one.
\<close>

theorem Pop_takes_a_greatest_item:
  assumes "strict_weak_order lt" and "is_heap lt (m_calls p)"
  shows "is_heap lt (m_calls (ThreadPool n :: 'c pool))
     \<and> is_heap lt (m_calls (snd (Push lt call p)))
     \<and> is_heap lt (m_calls (snd (Pop lt p)))
     \<and> (\<forall>x \<in> set (m_calls p). \<not> lt (pq_top (m_calls p)) x)
     \<and> (m_calls p \<noteq> [] \<longrightarrow>
          mset (m_calls (snd (Pop lt p))) = mset (m_calls p) - {#pq_top (m_calls p)#})
     \<and> (m_status p \<noteq> FINISHED \<longrightarrow>
          mset (m_calls (snd (Push lt call p))) = add_mset call (mset (m_calls p)))"
proof -
  note pop = pq_pop_heap [OF assms]
  note push = pq_push_heap [OF assms, of call]
  have "is_heap lt (m_calls (ThreadPool n :: 'c pool))"
    by (simp add: ThreadPool_fields is_heap_Nil)
  moreover have "is_heap lt (m_calls (snd (Push lt call p)))"
    using push assms(2) by (simp add: Push_def)
  moreover have "is_heap lt (m_calls (snd (Pop lt p)))"
    using pop assms(2) by (auto simp: Pop_def)
  moreover have "\<forall>x \<in> set (m_calls p). \<not> lt (pq_top (m_calls p)) x"
    using heap_top_greatest [OF assms] by (auto simp: in_set_conv_nth)
  moreover have "m_calls p \<noteq> [] \<longrightarrow>
      mset (m_calls (snd (Pop lt p))) = mset (m_calls p) - {#pq_top (m_calls p)#}"
    using pop by (simp add: Pop_def)
  moreover have "m_status p \<noteq> FINISHED \<longrightarrow>
      mset (m_calls (snd (Push lt call p))) = add_mset call (mset (m_calls p))"
    using push by (simp add: Push_def)
  ultimately show ?thesis by blast
qed


theorem Pop_takes_a_greatest_item_witness:
  "strict_weak_order by_priority
   \<and> is_heap by_priority
        (m_calls (Push_all by_priority [(1, ''a''), (3, ''b''), (2, ''c''), (3, ''d'')] (ThreadPool 1)))
   \<and> is_heap by_priority
        (m_calls (snd (Pop by_priority
           (Push_all by_priority [(1, ''a''), (3, ''b''), (2, ''c''), (3, ''d'')] (ThreadPool 1)))))
   \<and> is_heap by_priority
        (m_calls (snd (Push by_priority (5, ''e'')
           (Push_all by_priority [(1, ''a''), (3, ''b''), (2, ''c''), (3, ''d'')] (ThreadPool 1)))))
   \<and> \<not> by_priority
        (pq_top (m_calls
           (Push_all by_priority [(1, ''a''), (3, ''b''), (2, ''c''), (3, ''d'')] (ThreadPool 1))))
        (3, ''d'')
   \<and> mset (m_calls (snd (Pop by_priority
           (Push_all by_priority [(1, ''a''), (3, ''b''), (2, ''c''), (3, ''d'')] (ThreadPool 1)))))
       = {#(1, ''a''), (2, ''c''), (3, ''d'')#}"
proof -
  let ?P = "Push_all by_priority [(1, ''a''), (3, ''b''), (2, ''c''), (3, ''d'')] (ThreadPool 1)"
  have P: "m_calls ?P = [(3, ''b''), (3, ''d''), (2, ''c''), (1, ''a'')]"
    by code_simp
  have hp: "is_heap by_priority (m_calls ?P)"
    unfolding P by code_simp
  have mem: "(3, ''d'') \<in> set (m_calls ?P)" and ne: "m_calls ?P \<noteq> []"
    unfolding P by simp_all
  have top: "pq_top (m_calls ?P) = (3, ''b'')"
    unfolding P by (simp add: pq_top_def)
  from Pop_takes_a_greatest_item [OF swo_by_priority hp, of 1 "(5, ''e'')"] mem ne
  have "is_heap by_priority (m_calls (snd (Push by_priority (5, ''e'') ?P)))"
    and "is_heap by_priority (m_calls (snd (Pop by_priority ?P)))"
    and "\<not> by_priority (pq_top (m_calls ?P)) (3, ''d'')"
    and "mset (m_calls (snd (Pop by_priority ?P))) = mset (m_calls ?P) - {#pq_top (m_calls ?P)#}"
    by blast+
  moreover have "mset (m_calls ?P) - {#pq_top (m_calls ?P)#} = {#(1, ''a''), (2, ''c''), (3, ''d'')#}"
    unfolding top unfolding P by simp
  ultimately show ?thesis using swo_by_priority hp by simp
qed

text \<open>
  C10. \<open>Pop\<close> has no emptiness check: on an empty queue the call is the error case
  \<open>EmptyQueue\<close> and nothing else happens. On a non-empty queue it removes one element
  (the top, when the queue is a heap under a strict weak ordering). In no case does
  \<open>Pop\<close> return a value: it has no \<open>return\<close> statement.
\<close>

theorem Pop_needs_nonempty_queue:
  "(m_calls p = [] \<longrightarrow> Pop lt p = (Inl EmptyQueue, p))
   \<and> (m_calls p \<noteq> [] \<longrightarrow>
        Pop lt p = (Inl NoReturnValue, p\<lparr>m_calls := pq_pop lt (m_calls p)\<rparr>)
        \<and> length (m_calls (snd (Pop lt p))) = length (m_calls p) - 1)
   \<and> (strict_weak_order lt \<and> is_heap lt (m_calls p) \<and> m_calls p \<noteq> [] \<longrightarrow>
        mset (m_calls (snd (Pop lt p))) = mset (m_calls p) - {#pq_top (m_calls p)#})
   \<and> (\<forall>v. fst (Pop lt p) \<noteq> Inr v)"
  using pq_pop_heap [of lt "m_calls p"] by (simp add: Pop_def pq_pop_length)

theorem Pop_needs_nonempty_queue_witness:
  "Pop by_priority (ThreadPool 1) = (Inl EmptyQueue, ThreadPool 1)
   \<and> fst (Pop by_priority (Push_all by_priority [(1, ''a''), (3, ''b''), (2, ''c'')] (ThreadPool 1)))
       = Inl NoReturnValue
   \<and> length (m_calls (snd (Pop by_priority
        (Push_all by_priority [(1, ''a''), (3, ''b''), (2, ''c'')] (ThreadPool 1))))) = 2
   \<and> mset (m_calls (snd (Pop by_priority
        (Push_all by_priority [(1, ''a''), (3, ''b''), (2, ''c'')] (ThreadPool 1)))))
       = {#(1, ''a''), (2, ''c'')#}"
proof -
  define P where "P = Push_all by_priority [(1, ''a''), (3, ''b''), (2, ''c'')] (ThreadPool 1)"
  have P: "m_calls P = [(3, ''b''), (1, ''a''), (2, ''c'')]"
    unfolding P_def by code_simp
  have hp: "is_heap by_priority (m_calls P)"
    unfolding P by code_simp
  have ne: "m_calls P \<noteq> []" and len: "length (m_calls P) - 1 = 2"
    and ms: "mset (m_calls P) - {#pq_top (m_calls P)#} = {#(1, ''a''), (2, ''c'')#}"
    unfolding P by (simp_all add: pq_top_def)
  have e: "m_calls (ThreadPool 1 :: (nat \<times> string) pool) = []"
    by (simp add: ThreadPool_fields)
  from Pop_needs_nonempty_queue [of "ThreadPool 1" by_priority] e
  have "Pop by_priority (ThreadPool 1) = (Inl EmptyQueue, ThreadPool 1)" by blast
  moreover from Pop_needs_nonempty_queue [of P by_priority] ne
  have pe: "Pop by_priority P = (Inl NoReturnValue, P\<lparr>m_calls := pq_pop by_priority (m_calls P)\<rparr>)"
    and "length (m_calls (snd (Pop by_priority P))) = length (m_calls P) - 1"
    by blast+
  moreover from pe have "fst (Pop by_priority P) = Inl NoReturnValue"
    by simp
  moreover from Pop_needs_nonempty_queue [of P by_priority] ne hp swo_by_priority
  have "mset (m_calls (snd (Pop by_priority P))) = mset (m_calls P) - {#pq_top (m_calls P)#}"
    by blast
  ultimately show ?thesis unfolding len ms unfolding P_def by blast
qed

end
